theory Spec2Isabelle
  imports Main "HOL-Library.Word"
begin

section \<open>Live client migration: the output gate of \<open>ircd/migrate.c\<close>\<close>

text \<open>
  The C code works on \<open>struct Client\<close> and \<open>struct Migration\<close> objects that refer to each
  other through pointers. The model keeps an explicit store: an address is a natural
  number, a pointer is an optional address (\<open>None\<close> is \<open>NULL\<close>), and the two kinds of
  objects live in two partial maps. Dereferencing \<open>NULL\<close>, or an address that holds no
  object, is undefined behaviour in C and a \<open>fault\<close> value here. A loop that follows
  \<open>servptr\<close> links may run forever on a cyclic store, so both loops are partial functions
  in the option monad: \<open>None\<close> is "does not return".
\<close>

subsection \<open>Data model\<close>

type_synonym addr = nat

type_synonym ptr = "addr option"

text \<open>
  \<open>struct Client\<close> is declared in \<open>client.h\<close>; the fields read by \<open>migrate.c\<close> are
  \<open>servptr\<close> and \<open>migration\<close>.

  Modelled from the spec: the macro \<open>MyConnect\<close> of \<open>client.h\<close> is not part of the
  sources at hand. The specification describes it as the collaborator
  \<open>locally-connected(client) -> bool\<close>, so it is a boolean attribute of the client object.
\<close>

record Client =
  servptr :: ptr
  migration :: ptr
  MyConnect :: bool

record Migration =
  client_p :: ptr
  destination_p :: ptr
  furthest_ack_p :: ptr
  resume_token :: "32 word"
  confirm_token :: "32 word"

text \<open>The program state: both object stores and the address \<open>&me\<close> of the local node.\<close>

record state =
  clients :: "addr \<rightharpoonup> Client"
  migrations :: "addr \<rightharpoonup> Migration"
  me :: addr

datatype fault = NullDeref | WildDeref

subsection \<open>\<open>migration_resume\<close>\<close>

text \<open>
  The guard reads \<open>client_p->migration\<close> only when both pointers are non-null
  (\<open>||\<close> short-circuits). Past the guard the body is still a \<open>TODO\<close> comment, so the
  function returns there as well. The result is the state after the call.
\<close>

definition migration_resume :: "state \<Rightarrow> ptr \<Rightarrow> ptr \<Rightarrow> fault + state" where
  "migration_resume s cl_p migrant_p =
     (case cl_p of
        None \<Rightarrow> Inr s
      | Some c \<Rightarrow>
          if migrant_p = None then Inr s
          else (case clients s c of
                  None \<Rightarrow> Inl WildDeref
                | Some cl \<Rightarrow> if migration cl = None then Inr s else Inr s))"

subsection \<open>\<open>migrate_skip_output\<close>\<close>

text \<open>
  Step 1 of the general case, the loop
  \<^verbatim>\<open>for (next_ack_p = mig->destination_p; ; next_ack_p = next_ack_p->servptr)\<close>.
  It leaves either through \<open>return false\<close> of the whole function (\<open>LogicError\<close>) or through
  \<open>break\<close>, with \<open>next_ack_p\<close> pointing at the node found (\<open>NextAck\<close>).
\<close>

datatype next_ack = LogicError | NextAck addr

partial_function (option) find_next_ack :: "state \<Rightarrow> Migration \<Rightarrow> ptr \<Rightarrow> (fault + next_ack) option" where
  "find_next_ack s mig next_ack_p =
     (if next_ack_p = Some (me s) then Some (Inr LogicError)
      else (case next_ack_p of
              None \<Rightarrow> Some (Inl NullDeref)
            | Some n \<Rightarrow>
                (case clients s n of
                   None \<Rightarrow> Some (Inl WildDeref)
                 | Some c \<Rightarrow>
                     if servptr c = furthest_ack_p mig then Some (Inr (NextAck n))
                     else find_next_ack s mig (servptr c))))"

text \<open>
  Step 2, the loop
  \<^verbatim>\<open>for (cursor_p = source_p; cursor_p != &me; cursor_p = cursor_p->servptr)\<close>.
  Its value is what the function returns: \<open>False\<close> from inside the loop when the cursor
  meets \<open>next_ack_p\<close>, \<open>True\<close> after the loop.
\<close>

partial_function (option) on_source_path :: "state \<Rightarrow> ptr \<Rightarrow> ptr \<Rightarrow> (fault + bool) option" where
  "on_source_path s next_ack_p cursor_p =
     (if cursor_p = Some (me s) then Some (Inr True)
      else if cursor_p = next_ack_p then Some (Inr False)
      else (case cursor_p of
              None \<Rightarrow> Some (Inl NullDeref)
            | Some n \<Rightarrow>
                (case clients s n of
                   None \<Rightarrow> Some (Inl WildDeref)
                 | Some c \<Rightarrow> on_source_path s next_ack_p (servptr c))))"

text \<open>
  The function itself. A returning call yields the boolean together with the state it
  leaves behind; the function performs no assignment except to its three local variables.
\<close>

definition migrate_skip_output :: "state \<Rightarrow> ptr \<Rightarrow> ptr \<Rightarrow> (fault + bool \<times> state) option" where
  "migrate_skip_output s target_p source_p =
     (case target_p of
        None \<Rightarrow> Some (Inr (False, s))
      | Some t \<Rightarrow>
          if source_p = None then Some (Inr (False, s))
          else (case clients s t of
                  None \<Rightarrow> Some (Inl WildDeref)
                | Some tc \<Rightarrow>
                    (case migration tc of
                       None \<Rightarrow> Some (Inr (False, s))
                     | Some m \<Rightarrow>
                         (case migrations s m of
                            None \<Rightarrow> Some (Inl WildDeref)
                          | Some mig \<Rightarrow>
                              if destination_p mig = Some (me s) then Some (Inr (\<not> MyConnect tc, s))
                              else if furthest_ack_p mig = None then Some (Inr (False, s))
                              else if furthest_ack_p mig = destination_p mig then Some (Inr (True, s))
                              else (case find_next_ack s mig (destination_p mig) of
                                      None \<Rightarrow> None
                                    | Some (Inl e) \<Rightarrow> Some (Inl e)
                                    | Some (Inr LogicError) \<Rightarrow> Some (Inr (False, s))
                                    | Some (Inr (NextAck n)) \<Rightarrow>
                                        (case on_source_path s (Some n) source_p of
                                           None \<Rightarrow> None
                                         | Some (Inl e) \<Rightarrow> Some (Inl e)
                                         | Some (Inr b) \<Rightarrow> Some (Inr (b, s))))))))"

subsection \<open>The server tree\<close>

text \<open>
  The notions the statements below are phrased in. \<open>parent s n\<close> is the node one hop
  closer to the local node (\<open>n->servptr\<close>, when \<open>n\<close> is a live object).
  \<open>parent_walk s n ps\<close> says that following \<open>servptr\<close> from \<open>n\<close> reaches the local node
  through live objects and non-null links, and that \<open>ps\<close> lists the nodes visited, from
  \<open>n\<close> up to but excluding the local node. For a migration's destination this list is
  the direct path without its local end.
\<close>

definition parent :: "state \<Rightarrow> addr \<Rightarrow> ptr" where
  "parent s n = (case clients s n of None \<Rightarrow> None | Some c \<Rightarrow> servptr c)"

fun parent_walk :: "state \<Rightarrow> addr \<Rightarrow> addr list \<Rightarrow> bool" where
  "parent_walk s n [] = (n = me s)"
| "parent_walk s n (x # xs) =
     (x = n \<and> n \<noteq> me s \<and> (case parent s n of None \<Rightarrow> False | Some p \<Rightarrow> parent_walk s p xs))"

text \<open>
  The target of a call: a live client object \<open>t\<close> whose \<open>migration\<close> field points at the
  live migration record \<open>mig\<close>.
\<close>

definition migrating :: "state \<Rightarrow> addr \<Rightarrow> Migration \<Rightarrow> bool" where
  "migrating s t mig =
     (case clients s t of
        None \<Rightarrow> False
      | Some tc \<Rightarrow> (case migration tc of None \<Rightarrow> False | Some m \<Rightarrow> migrations s m = Some mig))"

subsection \<open>Example networks\<close>

text \<open>
  The tree \<open>ME\<midarrow>A\<midarrow>B\<midarrow>DEST\<close> of the specification's scenarios, with \<open>ME\<close> at address 10,
  \<open>A\<close> at 11, \<open>B\<close> at 12 and \<open>DEST\<close> at 13, a server 14 hanging off \<open>B\<close>, a server 15
  hanging off \<open>ME\<close>, and the migrating user 20 connected to \<open>ME\<close>. The ack progress of
  its migration record (at address 30) is the parameter. \<open>inbound_example\<close> is a node that
  is itself the destination of the migration of user 20.
\<close>

definition server :: "addr \<Rightarrow> Client" where
  "server up = \<lparr>servptr = Some up, migration = None, MyConnect = False\<rparr>"

definition example_migration :: "ptr \<Rightarrow> Migration" where
  "example_migration ack =
     \<lparr>client_p = Some 20, destination_p = Some 13, furthest_ack_p = ack,
      resume_token = 0, confirm_token = 0\<rparr>"

definition example_tree :: "ptr \<Rightarrow> state" where
  "example_tree ack =
     \<lparr>clients = [10 \<mapsto> server 10, 11 \<mapsto> server 10, 12 \<mapsto> server 11,
                 13 \<mapsto> server 12, 14 \<mapsto> server 12, 15 \<mapsto> server 10,
                 20 \<mapsto> \<lparr>servptr = Some 10, migration = Some 30, MyConnect = True\<rparr>],
      migrations = [30 \<mapsto> example_migration ack],
      me = 10\<rparr>"

definition inbound_example :: "bool \<Rightarrow> state" where
  "inbound_example connected =
     \<lparr>clients = [10 \<mapsto> server 10, 11 \<mapsto> server 10,
                 20 \<mapsto> \<lparr>servptr = Some 11, migration = Some 30, MyConnect = connected\<rparr>],
      migrations = [30 \<mapsto> \<lparr>client_p = Some 20, destination_p = Some 10,
                                 furthest_ack_p = None, resume_token = 0, confirm_token = 0\<rparr>],
      me = 10\<rparr>"

text \<open>
  A store that violates the tree shape: servers 11 and 12 point at each other, so no
  \<open>servptr\<close> chain leads from them to the local node 10.
\<close>

definition severed_example :: state where
  "severed_example =
     \<lparr>clients = [10 \<mapsto> server 10, 11 \<mapsto> server 12, 12 \<mapsto> server 11,
                 20 \<mapsto> \<lparr>servptr = Some 10, migration = Some 30, MyConnect = True\<rparr>],
      migrations = [30 \<mapsto> example_migration (Some 10)\<lparr>destination_p := Some 12\<rparr>],
      me = 10\<rparr>"

section \<open>Properties\<close>

subsection \<open>The two loops on a well-formed tree\<close>

lemma find_next_ack_walk:
  "parent_walk s n ps \<Longrightarrow>
   find_next_ack s mig (Some n) =
     Some (Inr (case find (\<lambda>m. parent s m = furthest_ack_p mig) ps of
                  None \<Rightarrow> LogicError | Some m \<Rightarrow> NextAck m))"
proof (induction ps arbitrary: n)
  case Nil
  then show ?case by (subst find_next_ack.simps) simp
next
  case (Cons x xs)
  then show ?case
    by (subst find_next_ack.simps) (auto simp: parent_def split: option.splits)
qed

lemma on_source_path_walk:
  "parent_walk s n ps \<Longrightarrow> on_source_path s (Some a) (Some n) = Some (Inr (a \<notin> set ps))"
proof (induction ps arbitrary: n)
  case Nil
  then show ?case by (subst on_source_path.simps) simp
next
  case (Cons x xs)
  then show ?case
    by (subst on_source_path.simps) (auto simp: parent_def split: option.splits)
qed

lemma general_case:
  assumes "migrating s t mig" and "destination_p mig = Some d" and "d \<noteq> me s"
    and "furthest_ack_p mig = Some f" and "f \<noteq> d"
    and "parent_walk s d dpath" and "parent_walk s src spath"
  shows "migrate_skip_output s (Some t) (Some src) =
           Some (Inr (case find (\<lambda>m. parent s m = Some f) dpath of
                        None \<Rightarrow> False | Some n \<Rightarrow> n \<notin> set spath, s))"
  using assms find_next_ack_walk [OF assms(6), of mig] on_source_path_walk [OF assms(7)]
  by (auto simp: migrate_skip_output_def migrating_def split: option.splits)

subsection \<open>Parent walks\<close>

lemma parent_walk_unique:
  "parent_walk s n ps \<Longrightarrow> parent_walk s n qs \<Longrightarrow> ps = qs"
proof (induction ps arbitrary: n qs)
  case Nil
  then show ?case by (cases qs) auto
next
  case (Cons x xs)
  then show ?case by (cases qs) (auto split: option.splits)
qed

lemma parent_walk_split:
  "parent_walk s n ps \<Longrightarrow> m \<in> set ps \<Longrightarrow>
   \<exists>pre post. ps = pre @ m # post \<and> parent_walk s m (m # post)"
proof (induction ps arbitrary: n)
  case Nil
  then show ?case by simp
next
  case (Cons x xs)
  show ?case
  proof (cases "m = x")
    case True
    with Cons.prems have "x # xs = [] @ m # xs \<and> parent_walk s m (m # xs)" by simp
    then show ?thesis by blast
  next
    case False
    with Cons.prems obtain p where p: "parent s n = Some p" "parent_walk s p xs" and m: "m \<in> set xs"
      by (auto split: option.splits)
    from Cons.IH [OF p(2) m] obtain pre post
      where "xs = pre @ m # post" "parent_walk s m (m # post)" by blast
    then have "x # xs = (x # pre) @ m # post \<and> parent_walk s m (m # post)" by simp
    then show ?thesis by blast
  qed
qed

lemma parent_walk_child_unique:
  assumes w: "parent_walk s n ps"
    and a: "a \<in> set ps" "parent s a = Some f"
    and b: "b \<in> set ps" "parent s b = Some f"
  shows "a = b"
proof -
  from parent_walk_split [OF w a(1)] obtain pre post
    where pa: "ps = pre @ a # post" "parent_walk s a (a # post)" by blast
  from parent_walk_split [OF w b(1)] obtain pre' post'
    where pb: "ps = pre' @ b # post'" "parent_walk s b (b # post')" by blast
  from pa(2) a(2) have "parent_walk s f post" by simp
  moreover from pb(2) b(2) have "parent_walk s f post'" by simp
  ultimately have post: "post = post'" by (rule parent_walk_unique)
  from pa(1) pb(1) have "pre @ a # post = pre' @ b # post'" by (rule trans [OF sym])
  with post have "pre @ a # post = pre' @ b # post" by (simp only:)
  then show ?thesis by simp
qed

lemma parent_walk_not_me: "parent_walk s n ps \<Longrightarrow> me s \<notin> set ps"
  by (induction ps arbitrary: n) (auto split: option.splits)

lemma parent_walk_distinct: "parent_walk s n ps \<Longrightarrow> distinct ps"
proof (induction ps arbitrary: n)
  case Nil
  then show ?case by simp
next
  case (Cons x xs)
  then obtain p where p: "parent s n = Some p" "parent_walk s p xs" and x: "x = n"
    by (auto split: option.splits)
  have "x \<notin> set xs"
  proof
    assume "x \<in> set xs"
    from parent_walk_split [OF p(2) this] obtain pre post
      where xs: "xs = pre @ x # post" and w: "parent_walk s x (x # post)" by blast
    from Cons.prems x have "parent_walk s x (x # xs)" by simp
    from parent_walk_unique [OF this w] have "xs = post" by simp
    with xs show False by simp
  qed
  with Cons.IH [OF p(2)] show ?case by simp
qed

lemma parent_walk_has_child:
  "parent_walk s n ps \<Longrightarrow> f \<in> set (tl ps) \<Longrightarrow> \<exists>a\<in>set ps. parent s a = Some f"
proof (induction ps arbitrary: n)
  case Nil
  then show ?case by simp
next
  case (Cons x xs)
  then obtain p where p: "parent s n = Some p" "parent_walk s p xs" and x: "x = n"
    by (auto split: option.splits)
  show ?case
  proof (cases xs)
    case Nil
    with Cons.prems show ?thesis by simp
  next
    case (Cons y ys)
    show ?thesis
    proof (cases "f = y")
      case True
      with p Cons x show ?thesis by auto
    next
      case False
      with Cons.prems(2) Cons have "f \<in> set (tl xs)" by simp
      from Cons.IH [OF p(2) this] show ?thesis by auto
    qed
  qed
qed

lemma find_first_child:
  "a \<in> set ps \<Longrightarrow> P a \<Longrightarrow> \<exists>b. find P ps = Some b \<and> b \<in> set ps \<and> P b"
  by (induction ps) auto

lemma parent_walk_last_child:
  "parent_walk s n ps \<Longrightarrow> ps \<noteq> [] \<Longrightarrow> find (\<lambda>m. parent s m = Some (me s)) ps = Some (last ps)"
proof (induction ps arbitrary: n)
  case Nil
  then show ?case by simp
next
  case (Cons x xs)
  then show ?case by (cases xs) (auto split: option.splits)
qed

subsection \<open>Facts about the example networks\<close>

lemma example_tree_parent:
  "parent (example_tree ack) 11 = Some 10"
  "parent (example_tree ack) 12 = Some 11"
  "parent (example_tree ack) 13 = Some 12"
  "parent (example_tree ack) 14 = Some 12"
  "parent (example_tree ack) 15 = Some 10"
  "me (example_tree ack) = 10"
  by (simp_all add: parent_def example_tree_def server_def)

lemma example_tree_walks:
  "parent_walk (example_tree ack) 13 [13, 12, 11]"
  "parent_walk (example_tree ack) 14 [14, 12, 11]"
  "parent_walk (example_tree ack) 15 [15]"
  "parent_walk (example_tree ack) 10 []"
  by (simp_all add: example_tree_parent)

lemma example_tree_migrating:
  "migrating (example_tree ack) 20 (example_migration ack)"
  by (simp add: migrating_def example_tree_def)

subsection \<open>The general case\<close>

text \<open>
  C1. Outbound migration, \<open>furthest_ack\<close> a node strictly between the local node and the
  destination (\<open>f \<in> set (tl dpath)\<close>: on the direct path, neither the destination, which is
  the head of \<open>dpath\<close>, nor the local node, which \<open>dpath\<close> excludes). Then the direct path
  holds exactly one node \<open>a\<close> whose parent is \<open>furthest_ack\<close>, the next node to ack, and
  \<open>migrate_skip_output\<close> returns \<open>False\<close> if \<open>a\<close> lies on the walk from the source up to the
  local node and \<open>True\<close> otherwise, leaving the state as it was.
\<close>

theorem skip_output_general_case:
  assumes "migrating s t mig"
    and "destination_p mig = Some d"
    and "furthest_ack_p mig = Some f"
    and "parent_walk s d dpath"
    and "f \<in> set (tl dpath)"
    and "parent_walk s src spath"
  shows "\<exists>a. a \<in> set dpath \<and> parent s a = Some f \<and>
             (\<forall>b\<in>set dpath. parent s b = Some f \<longrightarrow> b = a) \<and>
             migrate_skip_output s (Some t) (Some src) = Some (Inr (a \<notin> set spath, s))"
proof -
  from assms(4,5) obtain c where c: "c \<in> set dpath" "parent s c = Some f"
    using parent_walk_has_child by blast
  from find_first_child [of c dpath "\<lambda>m. parent s m = Some f", OF c] obtain a
    where a: "find (\<lambda>m. parent s m = Some f) dpath = Some a" "a \<in> set dpath" "parent s a = Some f"
    by blast
  have uniq: "\<forall>b\<in>set dpath. parent s b = Some f \<longrightarrow> b = a"
    using parent_walk_child_unique [OF assms(4) _ _ a(2,3)] by blast
  from assms(5) have ne: "dpath \<noteq> []" by auto
  with assms(4) have d: "d \<noteq> me s" by (cases dpath) auto
  from assms(4) ne have hd: "dpath = d # tl dpath" by (cases dpath) auto
  from parent_walk_distinct [OF assms(4)] hd have "d \<notin> set (tl dpath)"
    by (metis distinct.simps(2))
  with assms(5) have fd: "f \<noteq> d" by auto
  from general_case [OF assms(1,2) d assms(3) fd assms(4,6)] a(1)
  have "migrate_skip_output s (Some t) (Some src) = Some (Inr (a \<notin> set spath, s))" by simp
  with a(2,3) uniq show ?thesis by blast
qed

theorem skip_output_general_case_witness:
  "migrating (example_tree (Some 11)) 20 (example_migration (Some 11)) \<and>
   parent_walk (example_tree (Some 11)) 13 [13, 12, 11] \<and>
   parent_walk (example_tree (Some 11)) 14 [14, 12, 11] \<and>
   parent_walk (example_tree (Some 11)) 15 [15] \<and>
   migrate_skip_output (example_tree (Some 11)) (Some 20) (Some 14) =
     Some (Inr (False, example_tree (Some 11))) \<and>
   migrate_skip_output (example_tree (Some 11)) (Some 20) (Some 15) =
     Some (Inr (True, example_tree (Some 11)))"
proof -
  let ?s = "example_tree (Some 11)"
  have m: "migrating ?s 20 (example_migration (Some 11))" by (rule example_tree_migrating)
  have dst: "destination_p (example_migration (Some 11)) = Some 13"
    and ack: "furthest_ack_p (example_migration (Some 11)) = Some 11"
    by (simp_all add: example_migration_def)
  have w: "parent_walk ?s 13 [13, 12, 11]" "parent_walk ?s 14 [14, 12, 11]" "parent_walk ?s 15 [15]"
    by (rule example_tree_walks)+
  have between: "(11::nat) \<in> set (tl [13, 12, 11])" by simp
  from skip_output_general_case [OF m dst ack w(1) between w(2)]
  have x: "migrate_skip_output ?s (Some 20) (Some 14) = Some (Inr (False, ?s))"
    by (auto simp: example_tree_parent)
  from skip_output_general_case [OF m dst ack w(1) between w(3)]
  have y: "migrate_skip_output ?s (Some 20) (Some 15) = Some (Inr (True, ?s))"
    by (auto simp: example_tree_parent)
  from m w x y show ?thesis by simp
qed

subsection \<open>Before the first ack\<close>

text \<open>
  On the tree \<open>ME\<midarrow>A\<midarrow>B\<midarrow>DEST\<close> with \<open>furthest_ack = ME\<close> and \<open>source = ME\<close> the
  function returns \<open>True\<close>: step 1 stops at \<open>A\<close>, whose parent is \<open>ME\<close>, and the loop of
  step 2 is not entered because the cursor starts at the local node. The early
  \<open>return false\<close> of the code tests \<open>furthest_ack_p\<close> against \<open>NULL\<close>, not against \<open>&me\<close>.
\<close>

theorem skip_output_no_ack_counterexample:
  "migrating (example_tree (Some 10)) 20 (example_migration (Some 10)) \<and>
   destination_p (example_migration (Some 10)) = Some 13 \<and>
   furthest_ack_p (example_migration (Some 10)) = Some (me (example_tree (Some 10))) \<and>
   migrate_skip_output (example_tree (Some 10)) (Some 20) (Some 10) =
     Some (Inr (True, example_tree (Some 10)))"
proof -
  let ?s = "example_tree (Some 10)"
  have m: "migrating ?s 20 (example_migration (Some 10))" by (rule example_tree_migrating)
  have dst: "destination_p (example_migration (Some 10)) = Some 13"
    and ack: "furthest_ack_p (example_migration (Some 10)) = Some 10"
    by (simp_all add: example_migration_def)
  have w: "parent_walk ?s 13 [13, 12, 11]" "parent_walk ?s 10 []"
    by (rule example_tree_walks)+
  from general_case [OF m dst _ ack _ w]
  have "migrate_skip_output ?s (Some 20) (Some 10) = Some (Inr (True, ?s))"
    by (simp add: example_tree_parent)
  with m dst ack show ?thesis by (simp add: example_tree_parent)
qed

text \<open>
  C3, as amended. For an outbound migration whose flip has not been sent yet
  (\<open>furthest_ack_p\<close> is \<open>NULL\<close>), \<open>migrate_skip_output\<close> returns \<open>False\<close> for every source
  node. When \<open>furthest_ack_p\<close> is the local node (the flip is out, no hop has acked), the
  general case applies: the next node to ack is the last node of the walk from the
  destination, the one adjacent to the local node, and the result is \<open>False\<close> exactly when
  that node lies on the walk from the source up to the local node.
\<close>

theorem skip_output_flip_not_sent:
  assumes "migrating s t mig"
    and "destination_p mig = Some d"
    and "d \<noteq> me s"
  shows "(furthest_ack_p mig = None \<longrightarrow>
            migrate_skip_output s (Some t) (Some src) = Some (Inr (False, s))) \<and>
         (furthest_ack_p mig = Some (me s) \<longrightarrow>
            (\<forall>dpath spath. parent_walk s d dpath \<longrightarrow> parent_walk s src spath \<longrightarrow>
               migrate_skip_output s (Some t) (Some src) =
                 Some (Inr (last dpath \<notin> set spath, s))))"
proof (intro conjI impI allI)
  assume "furthest_ack_p mig = None"
  with assms show "migrate_skip_output s (Some t) (Some src) = Some (Inr (False, s))"
    by (auto simp: migrate_skip_output_def migrating_def split: option.splits)
next
  fix dpath spath
  assume ack: "furthest_ack_p mig = Some (me s)"
    and w: "parent_walk s d dpath" "parent_walk s src spath"
  from w(1) assms(3) have ne: "dpath \<noteq> []" by (cases dpath) auto
  from assms(3) have "me s \<noteq> d" by simp
  from general_case [OF assms ack this w] parent_walk_last_child [OF w(1) ne]
  show "migrate_skip_output s (Some t) (Some src) = Some (Inr (last dpath \<notin> set spath, s))"
    by simp
qed

theorem skip_output_flip_not_sent_witness:
  "migrate_skip_output (example_tree None) (Some 20) (Some 10) =
     Some (Inr (False, example_tree None)) \<and>
   migrate_skip_output (example_tree (Some 10)) (Some 20) (Some 14) =
     Some (Inr (False, example_tree (Some 10))) \<and>
   migrate_skip_output (example_tree (Some 10)) (Some 20) (Some 15) =
     Some (Inr (True, example_tree (Some 10)))"
proof -
  have dst: "\<And>ack. destination_p (example_migration ack) = Some 13"
    and ack: "\<And>ack. furthest_ack_p (example_migration ack) = ack"
    by (simp_all add: example_migration_def)
  have ne: "\<And>ack. 13 \<noteq> me (example_tree ack)" by (simp add: example_tree_parent)
  from skip_output_flip_not_sent [OF example_tree_migrating dst ne, of None 10]
  have a: "migrate_skip_output (example_tree None) (Some 20) (Some 10) =
             Some (Inr (False, example_tree None))"
    by (simp add: ack)
  from skip_output_flip_not_sent [OF example_tree_migrating dst ne, of "Some 10" 14]
    example_tree_walks [of "Some 10"]
  have b: "migrate_skip_output (example_tree (Some 10)) (Some 20) (Some 14) =
             Some (Inr (False, example_tree (Some 10)))"
    by (fastforce simp: ack example_tree_parent)
  from skip_output_flip_not_sent [OF example_tree_migrating dst ne, of "Some 10" 15]
    example_tree_walks [of "Some 10"]
  have c: "migrate_skip_output (example_tree (Some 10)) (Some 20) (Some 15) =
             Some (Inr (True, example_tree (Some 10)))"
    by (fastforce simp: ack example_tree_parent)
  from a b c show ?thesis by simp
qed

subsection \<open>The destination has acked\<close>

text \<open>
  C4. For an outbound migration, once \<open>furthest_ack\<close> equals the destination,
  \<open>migrate_skip_output\<close> returns \<open>True\<close> for every source node.
\<close>

theorem skip_output_destination_acked:
  assumes "migrating s t mig"
    and "destination_p mig = Some d"
    and "d \<noteq> me s"
    and "furthest_ack_p mig = Some d"
  shows "migrate_skip_output s (Some t) (Some src) = Some (Inr (True, s))"
  using assms
  by (auto simp: migrate_skip_output_def migrating_def split: option.splits)

theorem skip_output_destination_acked_witness:
  "migrating (example_tree (Some 13)) 20 (example_migration (Some 13)) \<and>
   13 \<noteq> me (example_tree (Some 13)) \<and>
   migrate_skip_output (example_tree (Some 13)) (Some 20) (Some 14) =
     Some (Inr (True, example_tree (Some 13)))"
  using skip_output_destination_acked
          [of "example_tree (Some 13)" 20 "example_migration (Some 13)" 13 14]
    example_tree_migrating [of "Some 13"]
  by (simp add: example_tree_parent example_migration_def)

subsection \<open>Inbound migrations\<close>

text \<open>
  C5. When the local node is the destination of the migration, \<open>migrate_skip_output\<close>
  returns \<open>True\<close> if and only if the target is not locally connected, whatever the source
  node and whatever \<open>furthest_ack\<close>.
\<close>

theorem skip_output_inbound:
  assumes "clients s t = Some tc"
    and "migrating s t mig"
    and "destination_p mig = Some (me s)"
  shows "migrate_skip_output s (Some t) (Some src) = Some (Inr (\<not> MyConnect tc, s))"
  using assms
  by (auto simp: migrate_skip_output_def migrating_def split: option.splits)

theorem skip_output_inbound_witness:
  "migrate_skip_output (inbound_example True) (Some 20) (Some 11) =
     Some (Inr (False, inbound_example True)) \<and>
   migrate_skip_output (inbound_example False) (Some 20) (Some 11) =
     Some (Inr (True, inbound_example False))"
proof -
  let ?mig = "\<lparr>client_p = Some 20, destination_p = Some 10, furthest_ack_p = None,
               resume_token = 0, confirm_token = 0\<rparr>"
  have c: "\<And>c. clients (inbound_example c) 20 =
              Some \<lparr>servptr = Some 11, migration = Some 30, MyConnect = c\<rparr>"
    and m: "\<And>c. migrating (inbound_example c) 20 ?mig"
    and d: "\<And>c. destination_p ?mig = Some (me (inbound_example c))"
    by (simp_all add: inbound_example_def migrating_def)
  from skip_output_inbound [OF c m d, of True 11] skip_output_inbound [OF c m d, of False 11]
  show ?thesis by simp
qed

subsection \<open>No migration\<close>

text \<open>
  C6. For a target without an active migration (a null target, or a client whose
  \<open>migration\<close> field is null) \<open>migrate_skip_output\<close> returns \<open>False\<close>, whatever the source
  pointer.
\<close>

theorem skip_output_no_migration:
  assumes "target_p = None \<or>
           (\<exists>t tc. target_p = Some t \<and> clients s t = Some tc \<and> migration tc = None)"
  shows "migrate_skip_output s target_p source_p = Some (Inr (False, s))"
  using assms
  by (auto simp: migrate_skip_output_def split: option.splits)

theorem skip_output_no_migration_witness:
  "clients (example_tree None) 15 = Some (server 10) \<and> migration (server 10) = None \<and>
   migrate_skip_output (example_tree None) (Some 15) (Some 14) =
     Some (Inr (False, example_tree None)) \<and>
   migrate_skip_output (example_tree None) None (Some 14) =
     Some (Inr (False, example_tree None))"
proof -
  have c: "clients (example_tree None) 15 = Some (server 10)" "migration (server 10) = None"
    by (simp_all add: example_tree_def server_def)
  from c skip_output_no_migration [of "Some 15" "example_tree None" "Some 14"]
    skip_output_no_migration [of None "example_tree None" "Some 14"]
  show ?thesis by simp
qed

subsection \<open>The logic error of step 1\<close>

text \<open>
  C7. In the general case, if the walk from the destination reaches the local node
  without meeting a node whose parent is \<open>furthest_ack\<close>, the function returns \<open>False\<close>:
  no fault, no suppression. This happens exactly off the invariant: \<open>furthest_ack\<close> is then
  neither the local node nor a node of the direct path.
\<close>

theorem skip_output_logic_error:
  assumes "migrating s t mig"
    and "destination_p mig = Some d"
    and "d \<noteq> me s"
    and "furthest_ack_p mig = Some f"
    and "f \<noteq> d"
    and "parent_walk s d dpath"
    and "\<forall>n\<in>set dpath. parent s n \<noteq> Some f"
  shows "f \<noteq> me s \<and> f \<notin> set (tl dpath) \<and>
         migrate_skip_output s (Some t) source_p = Some (Inr (False, s))"
proof (intro conjI)
  from assms(6,3) have ne: "dpath \<noteq> []" by (cases dpath) auto
  show "f \<noteq> me s"
  proof
    assume "f = me s"
    with parent_walk_last_child [OF assms(6) ne]
    have "find (\<lambda>m. parent s m = Some f) dpath = Some (last dpath)" by simp
    then have "parent s (last dpath) = Some f" by (auto simp: find_Some_iff)
    with assms(7) ne show False by auto
  qed
  show "f \<notin> set (tl dpath)"
    using parent_walk_has_child [OF assms(6)] assms(7) by blast
  from assms(7) have "find (\<lambda>m. parent s m = Some f) dpath = None"
    by (simp add: find_None_iff)
  with find_next_ack_walk [OF assms(6), of mig] assms(4)
  have "find_next_ack s mig (Some d) = Some (Inr LogicError)" by simp
  with assms(1-5) show "migrate_skip_output s (Some t) source_p = Some (Inr (False, s))"
    by (auto simp: migrate_skip_output_def migrating_def split: option.splits)
qed

theorem skip_output_logic_error_witness:
  "migrating (example_tree (Some 15)) 20 (example_migration (Some 15)) \<and>
   parent_walk (example_tree (Some 15)) 13 [13, 12, 11] \<and>
   parent (example_tree (Some 15)) 13 = Some 12 \<and>
   parent (example_tree (Some 15)) 12 = Some 11 \<and>
   parent (example_tree (Some 15)) 11 = Some 10 \<and>
   migrate_skip_output (example_tree (Some 15)) (Some 20) (Some 14) =
     Some (Inr (False, example_tree (Some 15)))"
proof -
  let ?s = "example_tree (Some 15)"
  have m: "migrating ?s 20 (example_migration (Some 15))" by (rule example_tree_migrating)
  have dst: "destination_p (example_migration (Some 15)) = Some 13"
    and ack: "furthest_ack_p (example_migration (Some 15)) = Some 15"
    by (simp_all add: example_migration_def)
  have ne: "13 \<noteq> me ?s" "(15::nat) \<noteq> 13" by (simp_all add: example_tree_parent)
  have w: "parent_walk ?s 13 [13, 12, 11]" by (rule example_tree_walks)
  have no: "\<forall>n\<in>set [13, 12, 11]. parent ?s n \<noteq> Some 15" by (simp add: example_tree_parent)
  from skip_output_logic_error [OF m dst ne(1) ack ne(2) w no, of "Some 14"] m w
  show ?thesis by (simp add: example_tree_parent)
qed

subsection \<open>Read-only\<close>

text \<open>
  C8. A returning call of \<open>migrate_skip_output\<close> leaves the whole state, migration records
  included, as it found it, and a second call with the same arguments returns the same
  boolean.
\<close>

theorem skip_output_read_only:
  assumes "migrate_skip_output s target_p source_p = Some (Inr (b, s'))"
  shows "s' = s \<and> migrate_skip_output s' target_p source_p = Some (Inr (b, s'))"
proof -
  from assms have "s' = s"
    by (auto simp: migrate_skip_output_def
             split: option.splits if_splits sum.splits next_ack.splits)
  with assms show ?thesis by simp
qed

theorem skip_output_read_only_witness:
  "migrate_skip_output (example_tree (Some 13)) (Some 20) (Some 14) =
     Some (Inr (True, example_tree (Some 13))) \<and>
   migrations (example_tree (Some 13)) 30 = Some (example_migration (Some 13))"
proof -
  have r: "migrate_skip_output (example_tree (Some 13)) (Some 20) (Some 14) =
             Some (Inr (True, example_tree (Some 13)))"
    by (simp add: migrate_skip_output_def example_tree_def example_migration_def)
  from skip_output_read_only [OF r] r show ?thesis by (simp add: example_tree_def)
qed

subsection \<open>\<open>migration_resume\<close> without a pending migration\<close>

text \<open>
  C9. \<open>migration_resume\<close> called with a null \<open>client_p\<close>, a null \<open>migrant_p\<close>, or a client
  that has no migration record returns normally and leaves the state unchanged.
\<close>

theorem migration_resume_rejects:
  assumes "cl_p = None \<or> migrant_p = None \<or>
           (\<exists>c cl. cl_p = Some c \<and> clients s c = Some cl \<and> migration cl = None)"
  shows "migration_resume s cl_p migrant_p = Inr s"
  using assms
  by (auto simp: migration_resume_def split: option.splits)

theorem migration_resume_rejects_witness:
  "migration_resume (example_tree None) None (Some 14) = Inr (example_tree None) \<and>
   migration_resume (example_tree None) (Some 20) None = Inr (example_tree None) \<and>
   clients (example_tree None) 15 = Some (server 10) \<and> migration (server 10) = None \<and>
   migration_resume (example_tree None) (Some 15) (Some 14) = Inr (example_tree None)"
proof -
  have c: "clients (example_tree None) 15 = Some (server 10)" "migration (server 10) = None"
    by (simp_all add: example_tree_def server_def)
  from c migration_resume_rejects [of None "Some 14" "example_tree None"]
    migration_resume_rejects [of "Some 20" None "example_tree None"]
    migration_resume_rejects [of "Some 15" "Some 14" "example_tree None"]
  show ?thesis by simp
qed

subsection \<open>Termination\<close>

text \<open>
  Off the tree shape the function need not return: on \<open>severed_example\<close> step 1 circles
  between the servers 11 and 12 forever.
\<close>

lemma find_next_ack_severed:
  assumes ret: "find_next_ack s0 mig0 p0 = Some r0"
  shows "s0 = severed_example \<longrightarrow> furthest_ack_p mig0 = Some 10 \<longrightarrow>
         p0 \<noteq> Some 11 \<and> p0 \<noteq> Some 12"
proof (rule find_next_ack.raw_induct
         [where P = "\<lambda>s mig p r. s = severed_example \<longrightarrow> furthest_ack_p mig = Some 10 \<longrightarrow>
                                  p \<noteq> Some 11 \<and> p \<noteq> Some 12", OF _ ret])
  fix f :: "state \<Rightarrow> Migration \<Rightarrow> ptr \<Rightarrow> (fault + next_ack) option"
  fix s mig p r
  assume IH: "\<And>s mig p r. f s mig p = Some r \<Longrightarrow>
                s = severed_example \<longrightarrow> furthest_ack_p mig = Some 10 \<longrightarrow>
                p \<noteq> Some 11 \<and> p \<noteq> Some 12"
    and body: "(if p = Some (me s) then Some (Inr LogicError)
                else case p of
                       None \<Rightarrow> Some (Inl NullDeref)
                     | Some n \<Rightarrow>
                         (case clients s n of
                            None \<Rightarrow> Some (Inl WildDeref)
                          | Some c \<Rightarrow>
                              if servptr c = furthest_ack_p mig then Some (Inr (NextAck n))
                              else f s mig (servptr c))) = Some r"
  show "s = severed_example \<longrightarrow> furthest_ack_p mig = Some 10 \<longrightarrow>
        p \<noteq> Some 11 \<and> p \<noteq> Some 12"
  proof (intro impI conjI notI)
    assume s: "s = severed_example" and ack: "furthest_ack_p mig = Some 10" and p: "p = Some 11"
    from body ack have "f s mig (Some 12) = Some r"
      unfolding s p by (simp add: severed_example_def server_def)
    from IH [OF this] s ack show False by simp
  next
    assume s: "s = severed_example" and ack: "furthest_ack_p mig = Some 10" and p: "p = Some 12"
    from body ack have "f s mig (Some 11) = Some r"
      unfolding s p by (simp add: severed_example_def server_def)
    from IH [OF this] s ack show False by simp
  qed
qed

lemma skip_output_severed:
  "migrate_skip_output severed_example (Some 20) (Some 10) = None"
proof -
  let ?mig = "example_migration (Some 10)\<lparr>destination_p := Some 12\<rparr>"
  have "furthest_ack_p ?mig = Some 10" by (simp add: example_migration_def)
  with find_next_ack_severed [of severed_example ?mig "Some 12"]
  have "find_next_ack severed_example ?mig (Some 12) = None"
    by (cases "find_next_ack severed_example ?mig (Some 12)") auto
  then show ?thesis
    by (simp add: migrate_skip_output_def severed_example_def example_migration_def)
qed

text \<open>
  C10. If the \<open>servptr\<close> chains of the destination and of the source reach the local
  node, \<open>migrate_skip_output\<close> returns, without a fault, for every target (null, not
  migrating, or migrating), every source (null or a node) and every value of
  \<open>furthest_ack_p\<close>. The local node's own \<open>servptr\<close> is never read, so nothing is asked of
  it.
\<close>

theorem skip_output_terminates:
  assumes tgt: "target_p = None \<or>
      (\<exists>t tc. target_p = Some t \<and> clients s t = Some tc \<and>
         (migration tc = None \<or>
          (\<exists>mig d dpath. migrating s t mig \<and> destination_p mig = Some d \<and>
             parent_walk s d dpath)))"
    and src: "source_p = None \<or> (\<exists>src spath. source_p = Some src \<and> parent_walk s src spath)"
  shows "\<exists>b. migrate_skip_output s target_p source_p = Some (Inr (b, s))"
proof -
  consider (nomig) "target_p = None \<or>
        (\<exists>t tc. target_p = Some t \<and> clients s t = Some tc \<and> migration tc = None)"
    | (mig) t mig d dpath where "target_p = Some t" "migrating s t mig"
        "destination_p mig = Some d" "parent_walk s d dpath"
    using tgt by blast
  then show ?thesis
  proof cases
    case nomig
    then show ?thesis
      by (auto simp: migrate_skip_output_def split: option.splits)
  next
    case mig
    show ?thesis
    proof (cases source_p)
      case None
      with mig(1) show ?thesis by (auto simp: migrate_skip_output_def)
    next
      case (Some x)
      with src obtain spath where sp: "parent_walk s x spath" by auto
      consider (inbound) "d = me s" | (unsent) "d \<noteq> me s" "furthest_ack_p mig = None"
        | (acked) "d \<noteq> me s" "furthest_ack_p mig = Some d"
        | (general) f where "d \<noteq> me s" "furthest_ack_p mig = Some f" "f \<noteq> d"
        by (cases "furthest_ack_p mig") auto
      then show ?thesis
      proof cases
        case inbound
        with mig Some show ?thesis
          by (auto simp: migrate_skip_output_def migrating_def split: option.splits)
      next
        case unsent
        with mig Some show ?thesis
          by (auto simp: migrate_skip_output_def migrating_def split: option.splits)
      next
        case acked
        with mig Some show ?thesis
          by (auto simp: migrate_skip_output_def migrating_def split: option.splits)
      next
        case general
        from general_case [OF mig(2,3) general mig(4) sp] mig(1) Some
        show ?thesis by blast
      qed
    qed
  qed
qed

theorem skip_output_terminates_witness:
  "parent_walk (example_tree (Some 12)) 13 [13, 12, 11] \<and>
   parent_walk (example_tree (Some 12)) 14 [14, 12, 11] \<and>
   (\<exists>b. migrate_skip_output (example_tree (Some 12)) (Some 20) (Some 14) =
      Some (Inr (b, example_tree (Some 12))))"
proof -
  let ?s = "example_tree (Some 12)"
  have w: "parent_walk ?s 13 [13, 12, 11]" "parent_walk ?s 14 [14, 12, 11]"
    by (rule example_tree_walks)+
  have c: "clients ?s 20 = Some \<lparr>servptr = Some 10, migration = Some 30, MyConnect = True\<rparr>"
    by (simp add: example_tree_def)
  have m: "migrating ?s 20 (example_migration (Some 12))" by (rule example_tree_migrating)
  have dst: "destination_p (example_migration (Some 12)) = Some 13"
    by (simp add: example_migration_def)
  have tgt: "Some (20::nat) = None \<or>
      (\<exists>t tc. Some 20 = Some t \<and> clients ?s t = Some tc \<and>
         (migration tc = None \<or>
          (\<exists>mig d dpath. migrating ?s t mig \<and> destination_p mig = Some d \<and>
             parent_walk ?s d dpath)))"
    using c m dst w(1) by blast
  have src: "Some (14::nat) = None \<or>
      (\<exists>src spath. Some 14 = Some src \<and> parent_walk ?s src spath)"
    using w(2) by blast
  from skip_output_terminates [OF tgt src] w show ?thesis by simp
qed

end
